theory Spec2Isabelle
  imports Main "HOL-Library.Word" "HOL-Library.Finite_Map"
begin

section \<open>The side input cache of the Go SDK harness (package statecache)\<close>

text \<open>
  The development embeds \<^verbatim>\<open>statecache.go\<close>. Every public method of the Go type takes the
  lock for its whole body, so the methods are atomic with respect to one another and
  each is modelled as a function from the state before the call to the state after it
  (together with the returned value, where there is one).

  Go maps are finite maps. \<^verbatim>\<open>len\<close> of a map is the cardinality of its key set.
\<close>

subsection \<open>Data\<close>

type_synonym token = string

text \<open>
  A \<^verbatim>\<open>ReusableInput\<close> is a Go interface value: either \<^verbatim>\<open>nil\<close> (\<open>None\<close>) or a reference
  to some object. The cache only stores and returns it, so the object is a type parameter.
\<close>

type_synonym 'v ReusableInput = "'v option"

record CacheMetrics =
  Hits :: "64 word"
  Misses :: "64 word"
  Evictions :: "64 word"
  InUseEvictions :: "64 word"

text \<open>
  The struct without its mutex. \<^verbatim>\<open>capacity\<close> is a Go \<^verbatim>\<open>int\<close>; the code only compares
  it, so it is an unbounded integer here. Validity counts are \<^verbatim>\<open>int8\<close>: 8-bit words read
  as two's complement.
\<close>

record 'v SideInputCache =
  capacity :: int
  cache :: "(token, 'v ReusableInput) fmap"
  idsToTokens :: "(string, token) fmap"
  validTokens :: "(token, 8 word) fmap"
  metrics :: CacheMetrics

text \<open>
  Go's zero value of the struct, the receiver of the first \<^verbatim>\<open>Init\<close>. Its maps are
  \<^verbatim>\<open>nil\<close>; a \<^verbatim>\<open>nil\<close> map reads like an empty one, and writing to it panics. The model
  shows it with empty maps and uses it only as the argument of \<open>Init\<close>.
\<close>

definition zeroValue :: "'v SideInputCache" where
  "zeroValue =
     \<lparr>capacity = 0, cache = fmempty, idsToTokens = fmempty, validTokens = fmempty,
      metrics = \<lparr>Hits = 0, Misses = 0, Evictions = 0, InUseEvictions = 0\<rparr>\<rparr>"

datatype error = CapacityNotPositive int

text \<open>
  Modelled from the spec: the protobuf message \<^verbatim>\<open>fnpb.ProcessBundleRequest_CacheToken\<close>
  is generated code that is not among the sources. The spec gives its shape: a scope
  (side input or user state); for a side input the step identifier and the input
  identifier; and the token. \<^verbatim>\<open>GetUserState() != nil\<close> is the first constructor. An entry
  with no scope at all is outside that shape and is not modelled.
\<close>

datatype CacheToken =
  UserStateToken token
| SideInputToken string string token

subsection \<open>Construction\<close>

text \<open>
  \<^verbatim>\<open>Init\<close> returns the error and the state of the receiver after the call:
  untouched when the capacity is rejected. The metrics are not reset.
\<close>

definition Init :: "'v SideInputCache \<Rightarrow> int \<Rightarrow> error option \<times> 'v SideInputCache" where
  "Init c cap =
     (if cap \<le> 0 then (Some (CapacityNotPositive cap), c)
      else (None, c\<lparr>cache := fmempty, idsToTokens := fmempty,
                     validTokens := fmempty, capacity := cap\<rparr>))"

subsection \<open>The token registry\<close>

definition setValidToken :: "'v SideInputCache \<Rightarrow> string \<Rightarrow> string \<Rightarrow> token \<Rightarrow> 'v SideInputCache" where
  "setValidToken c transformID sideInputID tok =
     (let idKey = transformID @ sideInputID;
          c1 = c\<lparr>idsToTokens := fmupd idKey tok (idsToTokens c)\<rparr>
      in case fmlookup (validTokens c1) tok of
           None \<Rightarrow> c1\<lparr>validTokens := fmupd tok 1 (validTokens c1)\<rparr>
         | Some count \<Rightarrow> c1\<lparr>validTokens := fmupd tok (count + 1) (validTokens c1)\<rparr>)"

fun SetValidTokens :: "'v SideInputCache \<Rightarrow> CacheToken list \<Rightarrow> 'v SideInputCache" where
  "SetValidTokens c [] = c"
| "SetValidTokens c (UserStateToken t # cacheTokens) = SetValidTokens c cacheTokens"
| "SetValidTokens c (SideInputToken transformID sideInputID t # cacheTokens) =
     SetValidTokens (setValidToken c transformID sideInputID t) cacheTokens"

text \<open>Reading a missing key of a Go map gives the zero value, here the count 0.\<close>

definition decrementTokenCount :: "'v SideInputCache \<Rightarrow> token \<Rightarrow> 'v SideInputCache" where
  "decrementTokenCount c tok =
     (let count = (case fmlookup (validTokens c) tok of None \<Rightarrow> 0 | Some n \<Rightarrow> n)
      in if count = 1 then c\<lparr>validTokens := fmdrop tok (validTokens c)\<rparr>
         else c\<lparr>validTokens := fmupd tok (count - 1) (validTokens c)\<rparr>)"

fun CompleteBundle :: "'v SideInputCache \<Rightarrow> CacheToken list \<Rightarrow> 'v SideInputCache" where
  "CompleteBundle c [] = c"
| "CompleteBundle c (UserStateToken t # cacheTokens) = CompleteBundle c cacheTokens"
| "CompleteBundle c (SideInputToken transformID sideInputID t # cacheTokens) =
     CompleteBundle (decrementTokenCount c t) cacheTokens"

definition isValid :: "'v SideInputCache \<Rightarrow> token \<Rightarrow> bool" where
  "isValid c tok =
     (case fmlookup (validTokens c) tok of None \<Rightarrow> False | Some count \<Rightarrow> 0 <s count)"

definition makeAndValidateToken :: "'v SideInputCache \<Rightarrow> string \<Rightarrow> string \<Rightarrow> token \<times> bool" where
  "makeAndValidateToken c transformID sideInputID =
     (let idKey = transformID @ sideInputID
      in case fmlookup (idsToTokens c) idKey of
           None \<Rightarrow> ('''', False)
         | Some tok \<Rightarrow> (tok, isValid c tok))"

subsection \<open>The cache store\<close>

definition QueryCache :: "'v SideInputCache \<Rightarrow> string \<Rightarrow> string \<Rightarrow> 'v ReusableInput \<times> 'v SideInputCache" where
  "QueryCache c transformID sideInputID =
     (case makeAndValidateToken c transformID sideInputID of
        (tok, ok) \<Rightarrow>
          if \<not> ok then (None, c)
          else (case fmlookup (cache c) tok of
                  None \<Rightarrow> (None, c\<lparr>metrics := (metrics c)\<lparr>Misses := Misses (metrics c) + 1\<rparr>\<rparr>)
                | Some input \<Rightarrow> (input, c\<lparr>metrics := (metrics c)\<lparr>Hits := Hits (metrics c) + 1\<rparr>\<rparr>)))"

subsection \<open>Eviction\<close>

text \<open>
  \<^verbatim>\<open>for k := range c.cache\<close> yields every key of the map once, in an order the language
  leaves open and that may differ from one loop to the next. The order is an argument
  of the model: a list \<open>ks\<close> with \<open>rangeOrder m ks\<close>. Both loops of \<^verbatim>\<open>evictElement\<close> leave
  the loop right after their only deletion.
\<close>

definition rangeOrder :: "('k, 'a) fmap \<Rightarrow> 'k list \<Rightarrow> bool" where
  "rangeOrder m ks = (distinct ks \<and> fset_of_list ks = fmdom m)"

text \<open>The first loop; the boolean is the variable \<^verbatim>\<open>deleted\<close>.\<close>

fun evictInvalid :: "'v SideInputCache \<Rightarrow> token list \<Rightarrow> 'v SideInputCache \<times> bool" where
  "evictInvalid c [] = (c, False)"
| "evictInvalid c (k # ks) =
     (if \<not> isValid c k
      then (c\<lparr>cache := fmdrop k (cache c),
              metrics := (metrics c)\<lparr>Evictions := Evictions (metrics c) + 1\<rparr>\<rparr>, True)
      else evictInvalid c ks)"

text \<open>The second loop: the first key the iteration yields goes.\<close>

fun evictInUse :: "'v SideInputCache \<Rightarrow> token list \<Rightarrow> 'v SideInputCache" where
  "evictInUse c [] = c"
| "evictInUse c (k # ks) =
     c\<lparr>cache := fmdrop k (cache c),
       metrics := (metrics c)\<lparr>InUseEvictions := InUseEvictions (metrics c) + 1\<rparr>\<rparr>"

definition evictElement :: "'v SideInputCache \<Rightarrow> token list \<Rightarrow> token list \<Rightarrow> 'v SideInputCache" where
  "evictElement c ks1 ks2 =
     (case evictInvalid c ks1 of
        (c1, deleted) \<Rightarrow> if \<not> deleted then evictInUse c1 ks2 else c1)"

text \<open>Go's \<^verbatim>\<open>len\<close> of a map, an \<^verbatim>\<open>int\<close>.\<close>

definition len :: "('k, 'a) fmap \<Rightarrow> int" where
  "len m = int (fcard (fmdom m))"

definition SetCache ::
  "'v SideInputCache \<Rightarrow> string \<Rightarrow> string \<Rightarrow> 'v ReusableInput \<Rightarrow> token list \<Rightarrow> token list \<Rightarrow> 'v SideInputCache" where
  "SetCache c transformID sideInputID input ks1 ks2 =
     (case makeAndValidateToken c transformID sideInputID of
        (tok, ok) \<Rightarrow>
          if \<not> ok then c
          else (let c1 = (if len (cache c) \<ge> capacity c then evictElement c ks1 ks2 else c)
                in c1\<lparr>cache := fmupd tok input (cache c1)\<rparr>))"

subsection \<open>Sequences of calls\<close>

text \<open>
  A client is a sequence of calls of the public methods. A call of \<^verbatim>\<open>SetCache\<close> carries
  the two iteration orders its eviction would see. \<open>run\<close> performs the calls from left to
  right; \<open>rangesOk\<close> says that each iteration order is one of the store at the moment of
  its call.
\<close>

datatype 'v operation =
  OpInit int
| OpSetValidTokens "CacheToken list"
| OpCompleteBundle "CacheToken list"
| OpQueryCache string string
| OpSetCache string string "'v ReusableInput" "token list" "token list"

fun exec :: "'v SideInputCache \<Rightarrow> 'v operation \<Rightarrow> 'v SideInputCache" where
  "exec c (OpInit cap) = snd (Init c cap)"
| "exec c (OpSetValidTokens cacheTokens) = SetValidTokens c cacheTokens"
| "exec c (OpCompleteBundle cacheTokens) = CompleteBundle c cacheTokens"
| "exec c (OpQueryCache transformID sideInputID) = snd (QueryCache c transformID sideInputID)"
| "exec c (OpSetCache transformID sideInputID input ks1 ks2) =
     SetCache c transformID sideInputID input ks1 ks2"

fun run :: "'v SideInputCache \<Rightarrow> 'v operation list \<Rightarrow> 'v SideInputCache" where
  "run c [] = c"
| "run c (x # xs) = run (exec c x) xs"

fun rangesOk :: "'v SideInputCache \<Rightarrow> 'v operation list \<Rightarrow> bool" where
  "rangesOk c [] = True"
| "rangesOk c (OpSetCache transformID sideInputID input ks1 ks2 # xs) =
     (rangeOrder (cache c) ks1 \<and> rangeOrder (cache c) ks2 \<and>
      rangesOk (exec c (OpSetCache transformID sideInputID input ks1 ks2)) xs)"
| "rangesOk c (x # xs) = rangesOk (exec c x) xs"

text \<open>
  The number of \<^verbatim>\<open>QueryCache\<close> calls of a sequence whose identity key resolves, at the
  moment of the call, to a currently valid token.
\<close>

fun resolvedQueries :: "'v SideInputCache \<Rightarrow> 'v operation list \<Rightarrow> nat" where
  "resolvedQueries c [] = 0"
| "resolvedQueries c (OpQueryCache transformID sideInputID # xs) =
     (if snd (makeAndValidateToken c transformID sideInputID) then 1 else 0) +
     resolvedQueries (exec c (OpQueryCache transformID sideInputID)) xs"
| "resolvedQueries c (x # xs) = resolvedQueries (exec c x) xs"

text \<open>
  A disciplined client: a registration never finds its token at the largest count (127),
  and a release always finds its token in the registry. Both are checked entry by
  entry, in the order the loops of \<^verbatim>\<open>SetValidTokens\<close> and \<^verbatim>\<open>CompleteBundle\<close> run.
\<close>

fun registersOk :: "'v SideInputCache \<Rightarrow> CacheToken list \<Rightarrow> bool" where
  "registersOk c [] = True"
| "registersOk c (UserStateToken t # cacheTokens) = registersOk c cacheTokens"
| "registersOk c (SideInputToken transformID sideInputID t # cacheTokens) =
     (fmlookup (validTokens c) t \<noteq> Some 127 \<and>
      registersOk (setValidToken c transformID sideInputID t) cacheTokens)"

fun releasesOk :: "'v SideInputCache \<Rightarrow> CacheToken list \<Rightarrow> bool" where
  "releasesOk c [] = True"
| "releasesOk c (UserStateToken t # cacheTokens) = releasesOk c cacheTokens"
| "releasesOk c (SideInputToken transformID sideInputID t # cacheTokens) =
     (t |\<in>| fmdom (validTokens c) \<and> releasesOk (decrementTokenCount c t) cacheTokens)"

fun disciplined :: "'v SideInputCache \<Rightarrow> 'v operation list \<Rightarrow> bool" where
  "disciplined c [] = True"
| "disciplined c (OpSetValidTokens cacheTokens # xs) =
     (registersOk c cacheTokens \<and> disciplined (exec c (OpSetValidTokens cacheTokens)) xs)"
| "disciplined c (OpCompleteBundle cacheTokens # xs) =
     (releasesOk c cacheTokens \<and> disciplined (exec c (OpCompleteBundle cacheTokens)) xs)"
| "disciplined c (x # xs) = disciplined (exec c x) xs"

text \<open>The registrations of token \<open>tok\<close> among the entries of the calls.\<close>

fun registers :: "token \<Rightarrow> CacheToken \<Rightarrow> bool" where
  "registers tok (UserStateToken t) = False"
| "registers tok (SideInputToken transformID sideInputID t) = (t = tok)"

subsection \<open>Calls that leave a cached token alone\<close>

text \<open>
  The calls between a \<^verbatim>\<open>SetCache\<close> for the identity key \<open>key\<close>, resolved to token \<open>tok\<close>,
  and a later query for that key, when nothing disturbs the token: no entry of a
  \<^verbatim>\<open>SetValidTokens\<close> call gives \<open>key\<close> another token or registers \<open>tok\<close> at count 127, no
  entry of a \<^verbatim>\<open>CompleteBundle\<close> call releases \<open>tok\<close>, no \<^verbatim>\<open>SetCache\<close> (by its insert or by
  its eviction) changes the store's entry of \<open>tok\<close>, and no \<^verbatim>\<open>Init\<close> succeeds.
\<close>

fun registersKeep :: "token \<Rightarrow> string \<Rightarrow> 'v SideInputCache \<Rightarrow> CacheToken list \<Rightarrow> bool" where
  "registersKeep tok key c [] = True"
| "registersKeep tok key c (UserStateToken t # cacheTokens) = registersKeep tok key c cacheTokens"
| "registersKeep tok key c (SideInputToken transformID sideInputID t # cacheTokens) =
     ((if transformID @ sideInputID = key then t = tok else True) \<and>
      (if t = tok then fmlookup (validTokens c) tok \<noteq> Some 127 else True) \<and>
      registersKeep tok key (setValidToken c transformID sideInputID t) cacheTokens)"

fun releasesKeep :: "token \<Rightarrow> CacheToken list \<Rightarrow> bool" where
  "releasesKeep tok [] = True"
| "releasesKeep tok (UserStateToken t # cacheTokens) = releasesKeep tok cacheTokens"
| "releasesKeep tok (SideInputToken transformID sideInputID t # cacheTokens) =
     (t \<noteq> tok \<and> releasesKeep tok cacheTokens)"

fun undisturbed :: "token \<Rightarrow> string \<Rightarrow> 'v SideInputCache \<Rightarrow> 'v operation list \<Rightarrow> bool" where
  "undisturbed tok key c [] = True"
| "undisturbed tok key c (OpInit cap # xs) =
     (cap \<le> 0 \<and> undisturbed tok key (exec c (OpInit cap)) xs)"
| "undisturbed tok key c (OpSetValidTokens cacheTokens # xs) =
     (registersKeep tok key c cacheTokens \<and>
      undisturbed tok key (exec c (OpSetValidTokens cacheTokens)) xs)"
| "undisturbed tok key c (OpCompleteBundle cacheTokens # xs) =
     (releasesKeep tok cacheTokens \<and>
      undisturbed tok key (exec c (OpCompleteBundle cacheTokens)) xs)"
| "undisturbed tok key c (OpQueryCache transformID sideInputID # xs) =
     undisturbed tok key (exec c (OpQueryCache transformID sideInputID)) xs"
| "undisturbed tok key c (OpSetCache transformID sideInputID input ks1 ks2 # xs) =
     (fmlookup (cache (exec c (OpSetCache transformID sideInputID input ks1 ks2))) tok =
        fmlookup (cache c) tok \<and>
      undisturbed tok key (exec c (OpSetCache transformID sideInputID input ks1 ks2)) xs)"

subsection \<open>Example states\<close>

text \<open>
  A store of capacity 1 whose only entry, for token \<open>A\<close>, has been released, while the
  key (stepX, in2) holds the valid token \<open>C\<close>.
\<close>

definition afterRelease :: "nat SideInputCache" where
  "afterRelease =
     run (snd (Init zeroValue 1))
       [OpSetValidTokens [SideInputToken ''stepX'' ''in1'' ''A''],
        OpSetCache ''stepX'' ''in1'' (Some 1) [] [],
        OpCompleteBundle [SideInputToken ''stepX'' ''in1'' ''A''],
        OpSetValidTokens [SideInputToken ''stepX'' ''in2'' ''C'']]"

text \<open>A store of capacity 2 right after its construction.\<close>

definition fresh :: "nat SideInputCache" where
  "fresh = snd (Init zeroValue 2)"

text \<open>The store \<open>fresh\<close> after token \<open>A\<close> has been registered for the key (stepX, in1).\<close>

definition registered :: "nat SideInputCache" where
  "registered = SetValidTokens fresh [SideInputToken ''stepX'' ''in1'' ''A'']"

text \<open>
  The in-use eviction: capacity 1, tokens \<open>A\<close> and \<open>B\<close> both valid, a value cached for
  each in turn, then a query for the first key.
\<close>

definition inUseScenario :: "nat operation list" where
  "inUseScenario =
     [OpSetValidTokens [SideInputToken ''stepX'' ''in1'' ''A''],
      OpSetCache ''stepX'' ''in1'' (Some 1) [] [],
      OpSetValidTokens [SideInputToken ''stepX'' ''in2'' ''B''],
      OpSetCache ''stepX'' ''in2'' (Some 2) [''A''] [''A''],
      OpQueryCache ''stepX'' ''in1'']"

text \<open>
  Two overlapping bundles that share token \<open>A\<close>; the second is still active at the end.
\<close>

definition overlappingBundles :: "nat operation list" where
  "overlappingBundles =
     [OpSetValidTokens [SideInputToken ''stepX'' ''in1'' ''A''],
      OpSetValidTokens [SideInputToken ''stepX'' ''in1'' ''A'', UserStateToken ''U''],
      OpSetCache ''stepX'' ''in1'' (Some 1) [] [],
      OpCompleteBundle [SideInputToken ''stepX'' ''in1'' ''A''],
      OpQueryCache ''stepX'' ''in1'']"

text \<open>
  Three queries: a key with a valid token, a key with a released token, an unknown key.
\<close>

definition threeQueries :: "nat operation list" where
  "threeQueries =
     [OpQueryCache ''stepX'' ''in2'', OpQueryCache ''stepX'' ''in1'', OpQueryCache ''stepY'' ''in1'']"

text \<open>
  Token \<open>A\<close> registered for (stepX, in1) and a value cached for it; then calls that leave
  \<open>A\<close> alone: another bundle registers \<open>A\<close> again and \<open>B\<close> for another key, caches a
  value for \<open>B\<close>, and completes.
\<close>

definition cachedA :: "nat SideInputCache" where
  "cachedA = SetCache registered ''stepX'' ''in1'' (Some 1) [] []"

definition quietCalls :: "nat operation list" where
  "quietCalls =
     [OpSetValidTokens [SideInputToken ''stepX'' ''in1'' ''A'', SideInputToken ''stepY'' ''in1'' ''B''],
      OpQueryCache ''stepX'' ''in1'',
      OpSetCache ''stepY'' ''in1'' (Some 2) [''A''] [''A''],
      OpCompleteBundle [SideInputToken ''stepY'' ''in1'' ''B'', UserStateToken ''A'']]"

text \<open>The key (stepX, in1) of \<open>cachedA\<close> registered again, now with token \<open>B\<close>.\<close>

definition superseded :: "nat SideInputCache" where
  "superseded = SetValidTokens cachedA [SideInputToken ''stepX'' ''in1'' ''B'']"

section \<open>Properties\<close>

subsection \<open>Auxiliary facts\<close>

lemma len_fmempty: "len fmempty = 0"
  by (simp add: len_def)

lemma len_fmupd: "len (fmupd k v m) = (if k |\<in>| fmdom m then len m else len m + 1)"
  by (auto simp: len_def fcard_finsert_if)

lemma len_pos: "k |\<in>| fmdom m \<Longrightarrow> 1 \<le> len m"
proof -
  assume k: "k |\<in>| fmdom m"
  then have "fmdom m \<noteq> {||}" by auto
  then have "fcard (fmdom m) \<noteq> 0" by simp
  then have "1 \<le> fcard (fmdom m)" by linarith
  then show ?thesis by (simp add: len_def)
qed

lemma len_fmdrop: "k |\<in>| fmdom m \<Longrightarrow> len (fmdrop k m) = len m - 1"
  using len_pos [of k m] by (simp add: len_def fcard_fminus_fsingleton)

lemma len_zero_iff: "len m = 0 \<longleftrightarrow> fmdom m = {||}"
  by (simp add: len_def)

lemma rangeOrder_set: "rangeOrder m ks \<Longrightarrow> set ks = fset (fmdom m)"
proof -
  assume "rangeOrder m ks"
  then have "fset_of_list ks = fmdom m" by (simp add: rangeOrder_def)
  then have "fset (fset_of_list ks) = fset (fmdom m)" by simp
  then show ?thesis by (simp add: fset_of_list.rep_eq)
qed

lemma rangeOrder_nonempty:
  "rangeOrder m ks \<Longrightarrow> 1 \<le> len m \<Longrightarrow> \<exists>k ks'. ks = k # ks' \<and> k |\<in>| fmdom m"
proof -
  assume r: "rangeOrder m ks" and l: "1 \<le> len m"
  from l have "fmdom m \<noteq> {||}" using len_zero_iff [of m] by auto
  then have "fset (fmdom m) \<noteq> {}"
    by (simp add: bot_fset.rep_eq [symmetric] fset_inject del: bot_fset.rep_eq)
  with rangeOrder_set [OF r] have "set ks \<noteq> {}" by simp
  then obtain k ks' where ks: "ks = k # ks'" by (cases ks) auto
  with rangeOrder_set [OF r] have "k |\<in>| fmdom m" by auto
  with ks show ?thesis by blast
qed

subsection \<open>The two loops of the eviction\<close>

lemma evictInvalid_deleted:
  "evictInvalid c ks = (c', True) \<Longrightarrow>
     \<exists>k \<in> set ks. \<not> isValid c k \<and>
       c' = c\<lparr>cache := fmdrop k (cache c),
              metrics := (metrics c)\<lparr>Evictions := Evictions (metrics c) + 1\<rparr>\<rparr>"
  by (induction ks) (auto split: if_splits)

lemma evictInvalid_none:
  "evictInvalid c ks = (c', False) \<Longrightarrow> c' = c \<and> (\<forall>k \<in> set ks. isValid c k)"
  by (induction ks) (auto split: if_splits)

lemma evictElement_one:
  assumes r1: "rangeOrder (cache c) ks1" and r2: "rangeOrder (cache c) ks2"
    and ne: "1 \<le> len (cache c)"
  shows "\<exists>k. k |\<in>| fmdom (cache c) \<and>
           (if \<exists>k'. k' |\<in>| fmdom (cache c) \<and> \<not> isValid c k'
            then \<not> isValid c k \<and>
                 evictElement c ks1 ks2 =
                   c\<lparr>cache := fmdrop k (cache c),
                     metrics := (metrics c)\<lparr>Evictions := Evictions (metrics c) + 1\<rparr>\<rparr>
            else evictElement c ks1 ks2 =
                   c\<lparr>cache := fmdrop k (cache c),
                     metrics := (metrics c)\<lparr>InUseEvictions := InUseEvictions (metrics c) + 1\<rparr>\<rparr>)"
proof -
  obtain c1 deleted where e: "evictInvalid c ks1 = (c1, deleted)" by (cases "evictInvalid c ks1")
  show ?thesis
  proof (cases deleted)
    case True
    with e have "evictInvalid c ks1 = (c1, True)" by simp
    from evictInvalid_deleted [OF this] obtain k where
      k: "k \<in> set ks1" "\<not> isValid c k"
         "c1 = c\<lparr>cache := fmdrop k (cache c),
                 metrics := (metrics c)\<lparr>Evictions := Evictions (metrics c) + 1\<rparr>\<rparr>"
      by blast
    from k(1) rangeOrder_set [OF r1] have kd: "k |\<in>| fmdom (cache c)" by simp
    have "evictElement c ks1 ks2 = c1" using e True by (simp add: evictElement_def)
    with k kd show ?thesis by auto
  next
    case False
    with e have "evictInvalid c ks1 = (c1, False)" by simp
    from evictInvalid_none [OF this] have c1: "c1 = c" and all: "\<forall>k \<in> set ks1. isValid c k"
      by simp_all
    from all rangeOrder_set [OF r1] have none: "\<not> (\<exists>k'. k' |\<in>| fmdom (cache c) \<and> \<not> isValid c k')"
      by auto
    from rangeOrder_nonempty [OF r2 ne] obtain k ks' where ks2: "ks2 = k # ks'" and kd: "k |\<in>| fmdom (cache c)"
      by blast
    have "evictElement c ks1 ks2 =
            c\<lparr>cache := fmdrop k (cache c),
              metrics := (metrics c)\<lparr>InUseEvictions := InUseEvictions (metrics c) + 1\<rparr>\<rparr>"
      using e False c1 ks2 by (simp add: evictElement_def)
    with none kd show ?thesis by auto
  qed
qed

subsection \<open>What each call leaves alone\<close>

lemma SetValidTokens_frame:
  "cache (SetValidTokens c ts) = cache c \<and> metrics (SetValidTokens c ts) = metrics c \<and>
   capacity (SetValidTokens c ts) = capacity c"
  by (induction c ts rule: SetValidTokens.induct)
     (simp_all add: setValidToken_def Let_def split: option.splits)

lemma CompleteBundle_frame:
  "cache (CompleteBundle c ts) = cache c \<and> metrics (CompleteBundle c ts) = metrics c \<and>
   capacity (CompleteBundle c ts) = capacity c \<and> idsToTokens (CompleteBundle c ts) = idsToTokens c"
  by (induction c ts rule: CompleteBundle.induct)
     (simp_all add: decrementTokenCount_def Let_def)

lemma QueryCache_frame:
  "cache (snd (QueryCache c tid sid)) = cache c \<and>
   idsToTokens (snd (QueryCache c tid sid)) = idsToTokens c \<and>
   validTokens (snd (QueryCache c tid sid)) = validTokens c \<and>
   capacity (snd (QueryCache c tid sid)) = capacity c \<and>
   Evictions (metrics (snd (QueryCache c tid sid))) = Evictions (metrics c) \<and>
   InUseEvictions (metrics (snd (QueryCache c tid sid))) = InUseEvictions (metrics c)"
  by (simp add: QueryCache_def split: prod.splits option.splits)

lemma SetCache_not_ok: "\<not> snd (makeAndValidateToken c tid sid) \<Longrightarrow> SetCache c tid sid input ks1 ks2 = c"
  by (cases "makeAndValidateToken c tid sid") (simp add: SetCache_def)

lemma SetCache_room:
  "makeAndValidateToken c tid sid = (tok, True) \<Longrightarrow> len (cache c) < capacity c \<Longrightarrow>
   SetCache c tid sid input ks1 ks2 = c\<lparr>cache := fmupd tok input (cache c)\<rparr>"
  by (simp add: SetCache_def)

lemma SetCache_full:
  "makeAndValidateToken c tid sid = (tok, True) \<Longrightarrow> capacity c \<le> len (cache c) \<Longrightarrow>
   SetCache c tid sid input ks1 ks2 =
     (evictElement c ks1 ks2)\<lparr>cache := fmupd tok input (cache (evictElement c ks1 ks2))\<rparr>"
  by (simp add: SetCache_def Let_def)

lemma SetCache_evicts:
  assumes ok: "makeAndValidateToken c tid sid = (tok, True)"
    and cap: "1 \<le> capacity c" and full: "capacity c \<le> len (cache c)"
    and r1: "rangeOrder (cache c) ks1" and r2: "rangeOrder (cache c) ks2"
  shows "\<exists>k. k |\<in>| fmdom (cache c) \<and>
           len (fmdrop k (cache c)) = len (cache c) - 1 \<and>
           (if \<exists>k'. k' |\<in>| fmdom (cache c) \<and> \<not> isValid c k'
            then \<not> isValid c k \<and>
                 SetCache c tid sid input ks1 ks2 =
                   c\<lparr>cache := fmupd tok input (fmdrop k (cache c)),
                     metrics := (metrics c)\<lparr>Evictions := Evictions (metrics c) + 1\<rparr>\<rparr>
            else SetCache c tid sid input ks1 ks2 =
                   c\<lparr>cache := fmupd tok input (fmdrop k (cache c)),
                     metrics := (metrics c)\<lparr>InUseEvictions := InUseEvictions (metrics c) + 1\<rparr>\<rparr>)"
proof -
  from cap full have ne: "1 \<le> len (cache c)" by simp
  from evictElement_one [OF r1 r2 ne] obtain k where
    kd: "k |\<in>| fmdom (cache c)" and
    e: "if \<exists>k'. k' |\<in>| fmdom (cache c) \<and> \<not> isValid c k'
        then \<not> isValid c k \<and>
             evictElement c ks1 ks2 =
               c\<lparr>cache := fmdrop k (cache c),
                 metrics := (metrics c)\<lparr>Evictions := Evictions (metrics c) + 1\<rparr>\<rparr>
        else evictElement c ks1 ks2 =
               c\<lparr>cache := fmdrop k (cache c),
                 metrics := (metrics c)\<lparr>InUseEvictions := InUseEvictions (metrics c) + 1\<rparr>\<rparr>"
    by blast
  note s = SetCache_full [OF ok full, of input ks1 ks2]
  show ?thesis
  proof (cases "\<exists>k'. k' |\<in>| fmdom (cache c) \<and> \<not> isValid c k'")
    case True
    with e have "\<not> isValid c k" and
      "evictElement c ks1 ks2 =
               c\<lparr>cache := fmdrop k (cache c),
                 metrics := (metrics c)\<lparr>Evictions := Evictions (metrics c) + 1\<rparr>\<rparr>"
      by simp_all
    with s True kd len_fmdrop [OF kd] show ?thesis
      by (intro exI [of _ k]) simp
  next
    case False
    with e have
      "evictElement c ks1 ks2 =
               c\<lparr>cache := fmdrop k (cache c),
                 metrics := (metrics c)\<lparr>InUseEvictions := InUseEvictions (metrics c) + 1\<rparr>\<rparr>"
      by simp
    with s False kd len_fmdrop [OF kd] show ?thesis
      by (intro exI [of _ k]) simp
  qed
qed


subsection \<open>Eviction on a full store\<close>

text \<open>
  C1. A \<^verbatim>\<open>SetCache\<close> whose identity key resolves to a valid token, on a store that is at
  or above its (positive) capacity, removes exactly one entry before the insert: when
  some cached token is not valid, the removed entry is an invalid one and only
  \<^verbatim>\<open>Evictions\<close> grows, by 1; when every cached token is valid, some entry is removed
  and only \<^verbatim>\<open>InUseEvictions\<close> grows, by 1. Nothing else evicts: below capacity
  \<^verbatim>\<open>SetCache\<close> only inserts, with an unresolved or invalid key it does nothing, and
  \<^verbatim>\<open>SetValidTokens\<close>, \<^verbatim>\<open>CompleteBundle\<close> and \<^verbatim>\<open>QueryCache\<close> leave the store and the
  two eviction counters as they are.
\<close>

theorem SetCache_evicts_exactly_one:
  "(makeAndValidateToken c tid sid = (tok, True) \<and> 1 \<le> capacity c \<and>
    capacity c \<le> len (cache c) \<and> rangeOrder (cache c) ks1 \<and> rangeOrder (cache c) ks2 \<longrightarrow>
      (\<exists>k. k |\<in>| fmdom (cache c) \<and>
           len (fmdrop k (cache c)) = len (cache c) - 1 \<and>
           (if \<exists>k'. k' |\<in>| fmdom (cache c) \<and> \<not> isValid c k'
            then \<not> isValid c k \<and>
                 SetCache c tid sid input ks1 ks2 =
                   c\<lparr>cache := fmupd tok input (fmdrop k (cache c)),
                     metrics := (metrics c)\<lparr>Evictions := Evictions (metrics c) + 1\<rparr>\<rparr>
            else SetCache c tid sid input ks1 ks2 =
                   c\<lparr>cache := fmupd tok input (fmdrop k (cache c)),
                     metrics := (metrics c)\<lparr>InUseEvictions := InUseEvictions (metrics c) + 1\<rparr>\<rparr>))) \<and>
   (makeAndValidateToken c tid sid = (tok, True) \<and> len (cache c) < capacity c \<longrightarrow>
      SetCache c tid sid input ks1 ks2 = c\<lparr>cache := fmupd tok input (cache c)\<rparr>) \<and>
   (\<not> snd (makeAndValidateToken c tid sid) \<longrightarrow> SetCache c tid sid input ks1 ks2 = c) \<and>
   cache (SetValidTokens c ts) = cache c \<and> metrics (SetValidTokens c ts) = metrics c \<and>
   cache (CompleteBundle c ts) = cache c \<and> metrics (CompleteBundle c ts) = metrics c \<and>
   cache (snd (QueryCache c tid sid)) = cache c \<and>
   Evictions (metrics (snd (QueryCache c tid sid))) = Evictions (metrics c) \<and>
   InUseEvictions (metrics (snd (QueryCache c tid sid))) = InUseEvictions (metrics c)"
  using SetCache_evicts [of c tid sid tok ks1 ks2 input] SetCache_room [of c tid sid tok input ks1 ks2]
    SetCache_not_ok [of c tid sid input ks1 ks2] SetValidTokens_frame [of c ts]
    CompleteBundle_frame [of c ts] QueryCache_frame [of c tid sid]
  by blast

theorem SetCache_evicts_exactly_one_witness:
  "makeAndValidateToken afterRelease ''stepX'' ''in2'' = (''C'', True) \<and>
   1 \<le> capacity afterRelease \<and> capacity afterRelease \<le> len (cache afterRelease) \<and>
   rangeOrder (cache afterRelease) [''A''] \<and>
   (\<exists>k'. k' |\<in>| fmdom (cache afterRelease) \<and> \<not> isValid afterRelease k') \<and>
   (\<exists>k. k |\<in>| fmdom (cache afterRelease) \<and> \<not> isValid afterRelease k \<and>
        SetCache afterRelease ''stepX'' ''in2'' (Some 3) [''A''] [''A''] =
          afterRelease\<lparr>cache := fmupd ''C'' (Some 3) (fmdrop k (cache afterRelease)),
            metrics := (metrics afterRelease)\<lparr>Evictions := Evictions (metrics afterRelease) + 1\<rparr>\<rparr>)"
proof -
  have ok: "makeAndValidateToken afterRelease ''stepX'' ''in2'' = (''C'', True)" by code_simp
  have cap: "1 \<le> capacity afterRelease" by code_simp
  have full: "capacity afterRelease \<le> len (cache afterRelease)" by code_simp
  have r: "rangeOrder (cache afterRelease) [''A'']" by code_simp
  have "''A'' |\<in>| fmdom (cache afterRelease) \<and> \<not> isValid afterRelease ''A''" by code_simp
  then have inv: "\<exists>k'. k' |\<in>| fmdom (cache afterRelease) \<and> \<not> isValid afterRelease k'" by blast
  from SetCache_evicts_exactly_one [of afterRelease "''stepX''" "''in2''" "''C''" "[''A'']" "[''A'']" "Some 3"]
    ok cap full r inv
  show ?thesis by auto
qed

subsection \<open>Construction\<close>

text \<open>
  C8. \<^verbatim>\<open>Init\<close> returns an error exactly when the capacity is at most 0, and then leaves
  the receiver as it was. For every capacity from 1 on it returns no error and leaves an
  empty store, an empty mapping of identity keys, an empty token registry and the given
  capacity.
\<close>

theorem Init_error_iff_nonpositive:
  "(fst (Init c cap) \<noteq> None \<longleftrightarrow> cap \<le> 0) \<and>
   (cap \<le> 0 \<longrightarrow> Init c cap = (Some (CapacityNotPositive cap), c)) \<and>
   (1 \<le> cap \<longrightarrow>
      Init c cap =
        (None, \<lparr>capacity = cap, cache = fmempty, idsToTokens = fmempty,
                validTokens = fmempty, metrics = metrics c\<rparr>))"
  by (simp add: Init_def)

theorem Init_error_iff_nonpositive_witness:
  "Init (zeroValue :: nat SideInputCache) 0 = (Some (CapacityNotPositive 0), zeroValue) \<and>
   Init (zeroValue :: nat SideInputCache) 3 =
     (None, \<lparr>capacity = 3, cache = fmempty, idsToTokens = fmempty, validTokens = fmempty,
             metrics = \<lparr>Hits = 0, Misses = 0, Evictions = 0, InUseEvictions = 0\<rparr>\<rparr>)"
  using Init_error_iff_nonpositive [of "zeroValue :: nat SideInputCache" 0]
    Init_error_iff_nonpositive [of "zeroValue :: nat SideInputCache" 3]
  by (simp add: zeroValue_def)

subsection \<open>Keys that do not resolve to a valid token\<close>

lemma makeAndValidateToken_not_ok:
  "fmlookup (idsToTokens c) (tid @ sid) = None \<or>
   (\<exists>tok. fmlookup (idsToTokens c) (tid @ sid) = Some tok \<and> \<not> isValid c tok) \<Longrightarrow>
   \<not> snd (makeAndValidateToken c tid sid)"
  by (auto simp: makeAndValidateToken_def)

lemma QueryCache_not_ok: "\<not> snd (makeAndValidateToken c tid sid) \<Longrightarrow> QueryCache c tid sid = (None, c)"
  by (cases "makeAndValidateToken c tid sid") (simp add: QueryCache_def)

text \<open>
  C6. For an identity key that has no token, or whose token is not valid now,
  \<^verbatim>\<open>QueryCache\<close> returns no value and \<^verbatim>\<open>SetCache\<close> returns with the whole state (store,
  registry, metrics) unchanged. Neither has an error to return.
\<close>

theorem unknown_or_invalid_key_is_miss_and_noop:
  assumes "fmlookup (idsToTokens c) (tid @ sid) = None \<or>
           (\<exists>tok. fmlookup (idsToTokens c) (tid @ sid) = Some tok \<and> \<not> isValid c tok)"
  shows "QueryCache c tid sid = (None, c) \<and> SetCache c tid sid input ks1 ks2 = c"
  using makeAndValidateToken_not_ok [OF assms] QueryCache_not_ok SetCache_not_ok by blast

theorem unknown_or_invalid_key_is_miss_and_noop_witness:
  "fmlookup (idsToTokens fresh) (''stepX'' @ ''in1'') = None \<and>
   QueryCache fresh ''stepX'' ''in1'' = (None, fresh) \<and>
   SetCache fresh ''stepX'' ''in1'' (Some 1) [] [] = fresh \<and>
   fmlookup (idsToTokens afterRelease) (''stepX'' @ ''in1'') = Some ''A'' \<and>
   \<not> isValid afterRelease ''A'' \<and>
   QueryCache afterRelease ''stepX'' ''in1'' = (None, afterRelease) \<and>
   SetCache afterRelease ''stepX'' ''in1'' (Some 1) [''A''] [''A''] = afterRelease"
proof -
  have a: "fmlookup (idsToTokens fresh) (''stepX'' @ ''in1'') = None" by code_simp
  have b: "fmlookup (idsToTokens afterRelease) (''stepX'' @ ''in1'') = Some ''A''" by code_simp
  have c: "\<not> isValid afterRelease ''A''" by code_simp
  from b c have d: "\<exists>tok. fmlookup (idsToTokens afterRelease) (''stepX'' @ ''in1'') = Some tok \<and>
      \<not> isValid afterRelease tok" by blast
  show ?thesis
    using a b c
      unknown_or_invalid_key_is_miss_and_noop [of fresh "''stepX''" "''in1''" "Some 1" "[]" "[]", OF disjI1, OF a]
      unknown_or_invalid_key_is_miss_and_noop [of afterRelease "''stepX''" "''in1''" "Some 1" "[''A'']" "[''A'']", OF disjI2, OF d]
    by blast
qed

subsection \<open>Registering a token for a key that already has one\<close>

text \<open>
  C7. Registering token \<open>t2\<close> for an identity key that is mapped to \<open>t1\<close> maps the key
  to \<open>t2\<close> and adds 1 to the count of \<open>t2\<close> (a new counter starts at 1). Everything else
  stays: the count of \<open>t1\<close> when it is another token, every other count, every other
  key's mapping, the store (the entry of \<open>t1\<close> with it), the metrics and the capacity.
\<close>

theorem SetValidTokens_supersedes_mapping:
  assumes "fmlookup (idsToTokens c) (tid @ sid) = Some t1"
  shows "idsToTokens (SetValidTokens c [SideInputToken tid sid t2]) =
           fmupd (tid @ sid) t2 (idsToTokens c) \<and>
         validTokens (SetValidTokens c [SideInputToken tid sid t2]) =
           fmupd t2 (case fmlookup (validTokens c) t2 of None \<Rightarrow> 1 | Some count \<Rightarrow> count + 1)
             (validTokens c) \<and>
         (t1 \<noteq> t2 \<longrightarrow>
            fmlookup (validTokens (SetValidTokens c [SideInputToken tid sid t2])) t1 =
            fmlookup (validTokens c) t1) \<and>
         (\<forall>k. k \<noteq> tid @ sid \<longrightarrow>
            fmlookup (idsToTokens (SetValidTokens c [SideInputToken tid sid t2])) k =
            fmlookup (idsToTokens c) k) \<and>
         (\<forall>t. t \<noteq> t2 \<longrightarrow>
            fmlookup (validTokens (SetValidTokens c [SideInputToken tid sid t2])) t =
            fmlookup (validTokens c) t) \<and>
         cache (SetValidTokens c [SideInputToken tid sid t2]) = cache c \<and>
         metrics (SetValidTokens c [SideInputToken tid sid t2]) = metrics c \<and>
         capacity (SetValidTokens c [SideInputToken tid sid t2]) = capacity c"
  by (simp add: setValidToken_def Let_def split: option.splits)

theorem SetValidTokens_supersedes_mapping_witness:
  "fmlookup (idsToTokens afterRelease) (''stepX'' @ ''in2'') = Some ''C'' \<and>
   idsToTokens (SetValidTokens afterRelease [SideInputToken ''stepX'' ''in2'' ''D'']) =
     fmupd (''stepX'' @ ''in2'') ''D'' (idsToTokens afterRelease) \<and>
   fmlookup (validTokens (SetValidTokens afterRelease [SideInputToken ''stepX'' ''in2'' ''D''])) ''C'' =
     fmlookup (validTokens afterRelease) ''C'' \<and>
   cache (SetValidTokens afterRelease [SideInputToken ''stepX'' ''in2'' ''D'']) = cache afterRelease"
proof -
  have a: "fmlookup (idsToTokens afterRelease) (''stepX'' @ ''in2'') = Some ''C''" by code_simp
  have b: "''C'' \<noteq> ''D''" by simp
  show ?thesis
    using a b SetValidTokens_supersedes_mapping [OF a, of "''D''"] by blast
qed

subsection \<open>Hits, and what the store operations leave alone\<close>

lemma evictInvalid_registry:
  "idsToTokens (fst (evictInvalid c ks)) = idsToTokens c \<and>
   validTokens (fst (evictInvalid c ks)) = validTokens c \<and>
   capacity (fst (evictInvalid c ks)) = capacity c \<and>
   Hits (metrics (fst (evictInvalid c ks))) = Hits (metrics c) \<and>
   Misses (metrics (fst (evictInvalid c ks))) = Misses (metrics c)"
  by (induction ks) simp_all

lemma evictInUse_registry:
  "idsToTokens (evictInUse c ks) = idsToTokens c \<and>
   validTokens (evictInUse c ks) = validTokens c \<and>
   capacity (evictInUse c ks) = capacity c \<and>
   Hits (metrics (evictInUse c ks)) = Hits (metrics c) \<and>
   Misses (metrics (evictInUse c ks)) = Misses (metrics c)"
  by (cases ks) simp_all

lemma evictElement_registry:
  "idsToTokens (evictElement c ks1 ks2) = idsToTokens c \<and>
   validTokens (evictElement c ks1 ks2) = validTokens c \<and>
   capacity (evictElement c ks1 ks2) = capacity c \<and>
   Hits (metrics (evictElement c ks1 ks2)) = Hits (metrics c) \<and>
   Misses (metrics (evictElement c ks1 ks2)) = Misses (metrics c)"
proof (cases "evictInvalid c ks1")
  case (Pair c1 deleted)
  with evictInvalid_registry [of c ks1] evictInUse_registry [of c1 ks2]
  show ?thesis by (simp add: evictElement_def)
qed

lemma SetCache_registry:
  "idsToTokens (SetCache c tid sid input ks1 ks2) = idsToTokens c \<and>
   validTokens (SetCache c tid sid input ks1 ks2) = validTokens c \<and>
   capacity (SetCache c tid sid input ks1 ks2) = capacity c \<and>
   Hits (metrics (SetCache c tid sid input ks1 ks2)) = Hits (metrics c) \<and>
   Misses (metrics (SetCache c tid sid input ks1 ks2)) = Misses (metrics c)"
  using evictElement_registry [of c ks1 ks2]
  by (cases "makeAndValidateToken c tid sid") (simp add: SetCache_def Let_def)

lemma SetCache_stores:
  "makeAndValidateToken c tid sid = (tok, True) \<Longrightarrow>
   fmlookup (cache (SetCache c tid sid input ks1 ks2)) tok = Some input"
  by (simp add: SetCache_def Let_def)

lemma makeAndValidateToken_cong:
  "idsToTokens c' = idsToTokens c \<Longrightarrow> validTokens c' = validTokens c \<Longrightarrow>
   makeAndValidateToken c' tid sid = makeAndValidateToken c tid sid"
  by (simp add: makeAndValidateToken_def isValid_def split: option.splits)

lemma QueryCache_hit:
  "makeAndValidateToken c tid sid = (tok, True) \<Longrightarrow> fmlookup (cache c) tok = Some input \<Longrightarrow>
   QueryCache c tid sid = (input, c\<lparr>metrics := (metrics c)\<lparr>Hits := Hits (metrics c) + 1\<rparr>\<rparr>)"
  by (simp add: QueryCache_def)

lemma QueryCache_hits_repeat:
  assumes ok: "makeAndValidateToken c tid sid = (tok, True)"
    and st: "fmlookup (cache c) tok = Some input"
  shows "((\<lambda>s. snd (QueryCache s tid sid)) ^^ n) c =
           c\<lparr>metrics := (metrics c)\<lparr>Hits := Hits (metrics c) + of_nat n\<rparr>\<rparr>"
proof (induction n)
  case 0
  show ?case by simp
next
  case (Suc n)
  let ?s = "c\<lparr>metrics := (metrics c)\<lparr>Hits := Hits (metrics c) + of_nat n\<rparr>\<rparr>"
  have "makeAndValidateToken ?s tid sid = (tok, True)"
    using ok makeAndValidateToken_cong [of ?s c tid sid] by simp
  moreover have "fmlookup (cache ?s) tok = Some input" using st by simp
  ultimately have "QueryCache ?s tid sid =
      (input, ?s\<lparr>metrics := (metrics ?s)\<lparr>Hits := Hits (metrics ?s) + 1\<rparr>\<rparr>)"
    by (rule QueryCache_hit)
  with Suc show ?case by (simp add: add.assoc)
qed

subsection \<open>Identity keys are concatenations\<close>

text \<open>
  C9. The identity key of a pair is the step identifier followed by the input identifier,
  so the distinct pairs (a, bc) and (ab, c) have the same key: every operation gives the
  same result under either pair, and after a token is registered and a value cached
  under (a, bc) in a newly constructed store, a query under (ab, c) resolves to that
  token and returns that value as a hit.
\<close>

theorem identity_keys_collide:
  "(''a'', ''bc'') \<noteq> (''ab'', ''c'') \<and>
   setValidToken c ''a'' ''bc'' t = setValidToken c ''ab'' ''c'' t \<and>
   makeAndValidateToken c ''a'' ''bc'' = makeAndValidateToken c ''ab'' ''c'' \<and>
   QueryCache c ''a'' ''bc'' = QueryCache c ''ab'' ''c'' \<and>
   SetCache c ''a'' ''bc'' v ks1 ks2 = SetCache c ''ab'' ''c'' v ks1 ks2 \<and>
   makeAndValidateToken
     (SetCache (SetValidTokens (snd (Init c 1)) [SideInputToken ''a'' ''bc'' t]) ''a'' ''bc'' v ks1 ks2)
     ''ab'' ''c'' = (t, True) \<and>
   QueryCache
     (SetCache (SetValidTokens (snd (Init c 1)) [SideInputToken ''a'' ''bc'' t]) ''a'' ''bc'' v ks1 ks2)
     ''ab'' ''c'' =
     (v, \<lparr>capacity = 1, cache = fmupd t v fmempty, idsToTokens = fmupd ''abc'' t fmempty,
          validTokens = fmupd t 1 fmempty,
          metrics = (metrics c)\<lparr>Hits := Hits (metrics c) + 1\<rparr>\<rparr>)"
  by (simp add: setValidToken_def makeAndValidateToken_def QueryCache_def SetCache_def
      Init_def isValid_def len_fmempty word_sless_alt)

theorem identity_keys_collide_witness:
  "QueryCache
     (SetCache (SetValidTokens (snd (Init zeroValue 1)) [SideInputToken ''a'' ''bc'' ''T'']) ''a'' ''bc'' (Some (7::nat)) [] [])
     ''ab'' ''c'' =
     (Some 7, \<lparr>capacity = 1, cache = fmupd ''T'' (Some 7) fmempty, idsToTokens = fmupd ''abc'' ''T'' fmempty,
          validTokens = fmupd ''T'' 1 fmempty,
          metrics = \<lparr>Hits = 1, Misses = 0, Evictions = 0, InUseEvictions = 0\<rparr>\<rparr>)"
  using identity_keys_collide [of "zeroValue :: nat SideInputCache" "''T''" "Some 7" "[]" "[]"]
  by (simp add: zeroValue_def)

subsection \<open>Validity counts are 8-bit\<close>

lemma setValidToken_count:
  "fmlookup (validTokens (setValidToken c tid sid t)) tok =
     (if t = tok then Some ((case fmlookup (validTokens c) tok of None \<Rightarrow> 0 | Some x \<Rightarrow> x) + 1)
      else fmlookup (validTokens c) tok)"
  by (simp add: setValidToken_def Let_def split: option.splits)

lemma SetValidTokens_count:
  "fmlookup (validTokens (SetValidTokens c es)) tok =
     (if filter (registers tok) es = [] then fmlookup (validTokens c) tok
      else Some ((case fmlookup (validTokens c) tok of None \<Rightarrow> 0 | Some x \<Rightarrow> x) +
                 of_nat (length (filter (registers tok) es))))"
proof (induction c es rule: SetValidTokens.induct)
  case (1 c)
  show ?case by simp
next
  case (2 c t cacheTokens)
  then show ?case by simp
next
  case (3 c transformID sideInputID t cacheTokens)
  then show ?case
    by (simp add: setValidToken_count add.assoc add.commute)
qed

lemma SetValidTokens_append:
  "SetValidTokens c (es @ es') = SetValidTokens (SetValidTokens c es) es'"
  by (induction c es rule: SetValidTokens.induct) simp_all

lemma foldl_SetValidTokens: "foldl SetValidTokens c calls = SetValidTokens c (concat calls)"
  by (induction calls arbitrary: c) (simp_all add: SetValidTokens_append)

lemma int8_128: "(of_nat 128 :: 8 word) = - 128 \<and> \<not> (0 <s (- 128 :: 8 word)) \<and> sint (- 128 :: 8 word) = - 128"
  by (simp add: word_sless_alt)

text \<open>
  C10. The counts are \<^verbatim>\<open>int8\<close> and \<^verbatim>\<open>count + 1\<close> wraps. When a token is absent from the
  registry and the entries of the following \<^verbatim>\<open>SetValidTokens\<close> calls register it exactly
  128 times (nothing is released in between; entries for other tokens do not matter), its
  count is -128: \<^verbatim>\<open>isValid\<close> rejects the token, a query for a key mapped to it returns
  nothing, and the first loop of the eviction removes its entry as an invalid one.
\<close>

theorem count_wraps_after_128_registrations:
  assumes absent: "fmlookup (validTokens c) tok = None"
    and n: "length (filter (registers tok) (concat calls)) = 128"
    and c': "c' = foldl SetValidTokens c calls"
  shows "fmlookup (validTokens c') tok = Some (- 128) \<and> sint (- 128 :: 8 word) = - 128 \<and>
         \<not> isValid c' tok \<and>
         (fmlookup (idsToTokens c') (tid @ sid) = Some tok \<longrightarrow> QueryCache c' tid sid = (None, c')) \<and>
         evictInvalid c' (tok # ks) =
           (c'\<lparr>cache := fmdrop tok (cache c'),
               metrics := (metrics c')\<lparr>Evictions := Evictions (metrics c') + 1\<rparr>\<rparr>, True)"
proof -
  from n have ne: "filter (registers tok) (concat calls) \<noteq> []" by auto
  have cnt: "fmlookup (validTokens c') tok = Some (- 128)"
    using SetValidTokens_count [of c "concat calls" tok] ne n absent int8_128
    by (simp add: c' foldl_SetValidTokens)
  then have inv: "\<not> isValid c' tok" using int8_128 by (simp add: isValid_def)
  have q: "fmlookup (idsToTokens c') (tid @ sid) = Some tok \<longrightarrow> QueryCache c' tid sid = (None, c')"
    using inv by (simp add: QueryCache_def makeAndValidateToken_def)
  from cnt inv q int8_128 show ?thesis by simp
qed

theorem count_wraps_after_128_registrations_witness:
  "fmlookup (validTokens fresh) ''A'' = None \<and>
   length (filter (registers ''A'') (concat (replicate 128 [SideInputToken ''stepX'' ''in1'' ''A'']))) = 128 \<and>
   fmlookup (validTokens (foldl SetValidTokens fresh (replicate 128 [SideInputToken ''stepX'' ''in1'' ''A'']))) ''A'' = Some (- 128) \<and>
   \<not> isValid (foldl SetValidTokens fresh (replicate 128 [SideInputToken ''stepX'' ''in1'' ''A''])) ''A''"
proof -
  have a: "fmlookup (validTokens fresh) ''A'' = None" by code_simp
  have b: "length (filter (registers ''A'') (concat (replicate 128 [SideInputToken ''stepX'' ''in1'' ''A'']))) = 128"
    by code_simp
  from count_wraps_after_128_registrations [OF a b refl] a b show ?thesis by blast
qed

subsection \<open>The store never exceeds its capacity\<close>

lemma SetCache_size:
  assumes cap: "1 \<le> capacity c" and sz: "len (cache c) \<le> capacity c"
    and r1: "rangeOrder (cache c) ks1" and r2: "rangeOrder (cache c) ks2"
  shows "len (cache (SetCache c tid sid input ks1 ks2)) \<le> capacity c"
proof (cases "makeAndValidateToken c tid sid")
  case (Pair tok ok)
  show ?thesis
  proof (cases ok)
    case False
    with Pair have "SetCache c tid sid input ks1 ks2 = c" by (simp add: SetCache_not_ok)
    with sz show ?thesis by simp
  next
    case True
    with Pair have ok: "makeAndValidateToken c tid sid = (tok, True)" by simp
    show ?thesis
    proof (cases "len (cache c) < capacity c")
      case True
      from SetCache_room [OF ok True] have "cache (SetCache c tid sid input ks1 ks2) = fmupd tok input (cache c)"
        by simp
      with True show ?thesis by (simp add: len_fmupd)
    next
      case False
      then have full: "capacity c \<le> len (cache c)" by simp
      from SetCache_evicts [OF ok cap full r1 r2, of input] obtain k where
        k: "len (fmdrop k (cache c)) = len (cache c) - 1" and
        e: "cache (SetCache c tid sid input ks1 ks2) = fmupd tok input (fmdrop k (cache c))"
        by (auto split: if_splits)
      from e have "len (cache (SetCache c tid sid input ks1 ks2)) \<le> len (fmdrop k (cache c)) + 1"
        by (simp add: len_fmupd)
      with k sz show ?thesis by simp
    qed
  qed
qed

lemma rangesOk_Cons: "rangesOk c (x # xs) \<Longrightarrow> rangesOk c [x] \<and> rangesOk (exec c x) xs"
  by (cases x) simp_all

lemma exec_size:
  assumes cap: "1 \<le> capacity c" and sz: "len (cache c) \<le> capacity c" and r: "rangesOk c [x]"
  shows "1 \<le> capacity (exec c x) \<and> len (cache (exec c x)) \<le> capacity (exec c x)"
proof (cases x)
  case (OpInit n)
  with cap sz show ?thesis by (simp add: Init_def len_fmempty)
next
  case (OpSetValidTokens ts)
  with cap sz SetValidTokens_frame [of c ts] show ?thesis by simp
next
  case (OpCompleteBundle ts)
  with cap sz CompleteBundle_frame [of c ts] show ?thesis by simp
next
  case (OpQueryCache tid sid)
  with cap sz QueryCache_frame [of c tid sid] show ?thesis by simp
next
  case (OpSetCache tid sid input ks1 ks2)
  with r have r1: "rangeOrder (cache c) ks1" and r2: "rangeOrder (cache c) ks2" by simp_all
  from SetCache_size [OF cap sz r1 r2, of tid sid input] SetCache_registry [of c tid sid input ks1 ks2] cap
  show ?thesis using OpSetCache by simp
qed

lemma run_size:
  "1 \<le> capacity c \<Longrightarrow> len (cache c) \<le> capacity c \<Longrightarrow> rangesOk c xs \<Longrightarrow>
   1 \<le> capacity (run c xs) \<and> len (cache (run c xs)) \<le> capacity (run c xs)"
proof (induction xs arbitrary: c)
  case Nil
  then show ?case by simp
next
  case (Cons x xs)
  from rangesOk_Cons [OF Cons.prems(3)] have r: "rangesOk c [x]" and rs: "rangesOk (exec c x) xs"
    by simp_all
  from exec_size [OF Cons.prems(1) Cons.prems(2) r] Cons.IH [OF _ _ rs] show ?case by simp
qed

lemma rangesOk_take: "rangesOk c xs \<Longrightarrow> rangesOk c (take i xs)"
proof (induction xs arbitrary: c i)
  case Nil
  then show ?case by simp
next
  case (Cons x xs)
  show ?case
  proof (cases i)
    case 0
    then show ?thesis by simp
  next
    case (Suc j)
    from rangesOk_Cons [OF Cons.prems] have r: "rangesOk c [x]" and rs: "rangesOk (exec c x) xs"
      by simp_all
    from Cons.IH [OF rs, of j] r Suc show ?thesis by (cases x) simp_all
  qed
qed

lemma exec_capacity: "\<forall>n. x \<noteq> OpInit n \<Longrightarrow> capacity (exec c x) = capacity c"
  by (cases x)
     (simp_all add: SetValidTokens_frame CompleteBundle_frame QueryCache_frame SetCache_registry)

lemma run_capacity: "\<forall>n. OpInit n \<notin> set xs \<Longrightarrow> capacity (run c xs) = capacity c"
proof (induction xs arbitrary: c)
  case Nil
  then show ?case by simp
next
  case (Cons x xs)
  then have "\<forall>n. x \<noteq> OpInit n" and "\<forall>n. OpInit n \<notin> set xs" by auto
  with exec_capacity [of x c] Cons.IH [of "exec c x"] show ?case by simp
qed

text \<open>
  C2. After a successful \<^verbatim>\<open>Init\<close> with capacity \<open>cap\<close> \<open>\<ge>\<close> 1, the store has at most as many
  entries as the capacity after every call of every sequence of calls (\<open>take i ops\<close> is
  the sequence up to its \<open>i\<close>-th call), whatever orders the iterations over the store
  take. The capacity is \<open>cap\<close> unless the sequence calls \<^verbatim>\<open>Init\<close> again.
\<close>

theorem store_size_at_most_capacity:
  assumes cap: "1 \<le> cap" and r: "rangesOk (snd (Init c0 cap)) ops"
  shows "len (cache (run (snd (Init c0 cap)) (take i ops))) \<le>
           capacity (run (snd (Init c0 cap)) (take i ops)) \<and>
         ((\<forall>n. OpInit n \<notin> set ops) \<longrightarrow>
            len (cache (run (snd (Init c0 cap)) (take i ops))) \<le> cap)"
proof -
  let ?c = "snd (Init c0 cap)"
  from cap have c1: "1 \<le> capacity ?c" and c2: "len (cache ?c) \<le> capacity ?c" and c3: "capacity ?c = cap"
    by (simp_all add: Init_def len_fmempty)
  from run_size [OF c1 c2 rangesOk_take [OF r, of i]]
  have a: "len (cache (run ?c (take i ops))) \<le> capacity (run ?c (take i ops))" by simp
  have "(\<forall>n. OpInit n \<notin> set ops) \<longrightarrow> capacity (run ?c (take i ops)) = cap"
  proof
    assume "\<forall>n. OpInit n \<notin> set ops"
    then have "\<forall>n. OpInit n \<notin> set (take i ops)" by (meson in_set_takeD)
    from run_capacity [OF this, of ?c] c3 show "capacity (run ?c (take i ops)) = cap" by simp
  qed
  with a show ?thesis by auto
qed

theorem store_size_at_most_capacity_witness:
  "(1::int) \<le> 1 \<and> rangesOk (snd (Init zeroValue 1)) inUseScenario \<and>
   len (cache (run (snd (Init zeroValue 1)) (take 4 inUseScenario))) \<le>
     capacity (run (snd (Init zeroValue 1)) (take 4 inUseScenario)) \<and>
   cache (run (snd (Init zeroValue 1)) (take 4 inUseScenario)) = fmupd ''B'' (Some 2) fmempty \<and>
   InUseEvictions (metrics (run (snd (Init zeroValue 1)) (take 4 inUseScenario))) = 1"
proof -
  have a: "(1::int) \<le> 1" by simp
  have b: "rangesOk (snd (Init (zeroValue :: nat SideInputCache) 1)) inUseScenario" by code_simp
  have c: "cache (run (snd (Init zeroValue 1)) (take 4 inUseScenario)) = fmupd ''B'' (Some 2) fmempty"
    by code_simp
  have d: "InUseEvictions (metrics (run (snd (Init (zeroValue :: nat SideInputCache) 1)) (take 4 inUseScenario))) = 1"
    by code_simp
  from store_size_at_most_capacity [OF a b, of 4] a b c d show ?thesis by blast
qed

subsection \<open>Counts in the registry\<close>

lemma count_up: "0 <s (n :: 8 word) \<Longrightarrow> n \<noteq> 127 \<Longrightarrow> 0 <s n + 1"
proof -
  assume p: "0 <s n" and q: "n \<noteq> 127"
  from p have a: "0 < sint n" by (simp add: word_sless_alt)
  have b: "sint n < 128" using sint_lt [of n] by simp
  have "sint n \<noteq> 127"
  proof
    assume "sint n = 127"
    then have "sint n = sint (127 :: 8 word)" by simp
    then have "n = 127" by (rule signed_word_eqI)
    with q show False by simp
  qed
  with a b have c: "0 < sint n + 1 \<and> sint n + 1 < 128" by simp
  have "sint (n + 1) = signed_take_bit 7 (sint n + 1)" by (simp add: sint_word_ariths)
  also have "\<dots> = sint n + 1" using c by (simp add: signed_take_bit_int_eq_self)
  finally show ?thesis using c by (simp add: word_sless_alt)
qed

lemma count_down: "0 <s (n :: 8 word) \<Longrightarrow> n \<noteq> 1 \<Longrightarrow> 0 <s n - 1"
proof -
  assume p: "0 <s n" and q: "n \<noteq> 1"
  from p have a: "0 < sint n" by (simp add: word_sless_alt)
  have b: "sint n < 128" using sint_lt [of n] by simp
  have "sint n \<noteq> 1"
  proof
    assume "sint n = 1"
    then have "sint n = sint (1 :: 8 word)" by simp
    then have "n = 1" by (rule signed_word_eqI)
    with q show False by simp
  qed
  with a b have c: "0 < sint n - 1 \<and> sint n - 1 < 128" by simp
  have "sint (n - 1) = signed_take_bit 7 (sint n - 1)" by (simp add: sint_word_ariths)
  also have "\<dots> = sint n - 1" using c by (simp add: signed_take_bit_int_eq_self)
  finally show ?thesis using c by (simp add: word_sless_alt)
qed


lemma setValidToken_positive:
  assumes inv: "\<forall>tok n. fmlookup (validTokens c) tok = Some n \<longrightarrow> 0 <s n"
    and ok: "fmlookup (validTokens c) t \<noteq> Some 127"
  shows "\<forall>tok n. fmlookup (validTokens (setValidToken c tid sid t)) tok = Some n \<longrightarrow> 0 <s n"
proof (intro allI impI)
  fix tok n
  assume l: "fmlookup (validTokens (setValidToken c tid sid t)) tok = Some n"
  show "0 <s n"
  proof (cases "t = tok")
    case False
    with l inv show ?thesis by (simp add: setValidToken_count)
  next
    case True
    show ?thesis
    proof (cases "fmlookup (validTokens c) tok")
      case None
      with l True have "n = 1" by (simp add: setValidToken_count)
      then show ?thesis by (simp add: word_sless_alt)
    next
      case (Some m)
      with l True have n: "n = m + 1" by (simp add: setValidToken_count)
      from Some inv have "0 <s m" by blast
      moreover from Some ok True have "m \<noteq> 127" by simp
      ultimately show ?thesis using n count_up by simp
    qed
  qed
qed

lemma SetValidTokens_positive:
  "\<forall>tok n. fmlookup (validTokens c) tok = Some n \<longrightarrow> 0 <s n \<Longrightarrow> registersOk c es \<Longrightarrow>
   \<forall>tok n. fmlookup (validTokens (SetValidTokens c es)) tok = Some n \<longrightarrow> 0 <s n"
proof (induction c es rule: SetValidTokens.induct)
  case (1 c)
  then show ?case by simp
next
  case (2 c t cacheTokens)
  then show ?case by simp
next
  case (3 c transformID sideInputID t cacheTokens)
  from "3.prems" have ok: "fmlookup (validTokens c) t \<noteq> Some 127"
    and rest: "registersOk (setValidToken c transformID sideInputID t) cacheTokens" by simp_all
  from "3.IH" [OF setValidToken_positive [OF "3.prems"(1) ok] rest] show ?case by simp
qed

lemma decrementTokenCount_positive:
  assumes inv: "\<forall>tok n. fmlookup (validTokens c) tok = Some n \<longrightarrow> 0 <s n"
    and ok: "t |\<in>| fmdom (validTokens c)"
  shows "\<forall>tok n. fmlookup (validTokens (decrementTokenCount c t)) tok = Some n \<longrightarrow> 0 <s n"
proof (intro allI impI)
  fix tok n
  assume l: "fmlookup (validTokens (decrementTokenCount c t)) tok = Some n"
  from ok obtain m where m: "fmlookup (validTokens c) t = Some m" by (auto simp: fmlookup_dom_iff)
  with inv have pos: "0 <s m" by blast
  show "0 <s n"
  proof (cases "m = 1")
    case True
    with l m have "tok \<noteq> t \<and> fmlookup (validTokens c) tok = Some n"
      by (auto simp: decrementTokenCount_def split: if_splits)
    with inv show ?thesis by blast
  next
    case False
    show ?thesis
    proof (cases "tok = t")
      case True
      with l m False have "n = m - 1" by (simp add: decrementTokenCount_def)
      with pos False count_down show ?thesis by simp
    next
      case ne: False
      with l m False have "fmlookup (validTokens c) tok = Some n"
        by (simp add: decrementTokenCount_def)
      with inv show ?thesis by blast
    qed
  qed
qed

lemma CompleteBundle_positive:
  "\<forall>tok n. fmlookup (validTokens c) tok = Some n \<longrightarrow> 0 <s n \<Longrightarrow> releasesOk c es \<Longrightarrow>
   \<forall>tok n. fmlookup (validTokens (CompleteBundle c es)) tok = Some n \<longrightarrow> 0 <s n"
proof (induction c es rule: CompleteBundle.induct)
  case (1 c)
  then show ?case by simp
next
  case (2 c t cacheTokens)
  then show ?case by simp
next
  case (3 c transformID sideInputID t cacheTokens)
  from "3.prems" have ok: "t |\<in>| fmdom (validTokens c)"
    and rest: "releasesOk (decrementTokenCount c t) cacheTokens" by simp_all
  from "3.IH" [OF decrementTokenCount_positive [OF "3.prems"(1) ok] rest] show ?case by simp
qed

lemma disciplined_Cons: "disciplined c (x # xs) \<Longrightarrow> disciplined c [x] \<and> disciplined (exec c x) xs"
  by (cases x) simp_all

lemma exec_positive:
  assumes inv: "\<forall>tok n. fmlookup (validTokens c) tok = Some n \<longrightarrow> 0 <s n"
    and d: "disciplined c [x]"
  shows "\<forall>tok n. fmlookup (validTokens (exec c x)) tok = Some n \<longrightarrow> 0 <s n"
proof (cases x)
  case (OpInit n)
  with inv show ?thesis by (simp add: Init_def)
next
  case (OpSetValidTokens ts)
  with d SetValidTokens_positive [OF inv, of ts] show ?thesis by simp
next
  case (OpCompleteBundle ts)
  with d CompleteBundle_positive [OF inv, of ts] show ?thesis by simp
next
  case (OpQueryCache tid sid)
  with inv show ?thesis by (simp add: QueryCache_frame)
next
  case (OpSetCache tid sid input ks1 ks2)
  with inv show ?thesis by (simp add: SetCache_registry)
qed

lemma run_positive:
  "\<forall>tok n. fmlookup (validTokens c) tok = Some n \<longrightarrow> 0 <s n \<Longrightarrow> disciplined c xs \<Longrightarrow>
   \<forall>tok n. fmlookup (validTokens (run c xs)) tok = Some n \<longrightarrow> 0 <s n"
proof (induction xs arbitrary: c)
  case Nil
  then show ?case by simp
next
  case (Cons x xs)
  from disciplined_Cons [OF Cons.prems(2)] have d: "disciplined c [x]" and ds: "disciplined (exec c x) xs"
    by simp_all
  from Cons.IH [OF exec_positive [OF Cons.prems(1) d] ds] show ?case by simp
qed

text \<open>
  C3, as the code has it. \<^verbatim>\<open>decrementTokenCount\<close> does not check that the token is in the
  registry and \<^verbatim>\<open>setValidToken\<close> does not check the range of the count, so the claim
  holds for disciplined clients: after a successful \<^verbatim>\<open>Init\<close>, if every release finds its
  token in the registry and no registration finds its token at count 127, then every
  token in the registry has a count above 0, a token is valid exactly when it is in the
  registry, and (in any state) a release at count 1 removes the token.
\<close>

theorem registry_counts_positive:
  assumes cap: "1 \<le> cap" and d: "disciplined (snd (Init c0 cap)) ops"
    and c: "c = run (snd (Init c0 cap)) ops"
  shows "(\<forall>tok n. fmlookup (validTokens c) tok = Some n \<longrightarrow> 0 <s n) \<and>
         (\<forall>tok. isValid c tok \<longleftrightarrow> tok |\<in>| fmdom (validTokens c)) \<and>
         (\<forall>s t. fmlookup (validTokens (s :: 'a SideInputCache)) t = Some 1 \<longrightarrow>
                 fmlookup (validTokens (decrementTokenCount s t)) t = None)"
proof -
  from cap have "\<forall>tok n. fmlookup (validTokens (snd (Init c0 cap))) tok = Some n \<longrightarrow> 0 <s n"
    by (simp add: Init_def)
  from run_positive [OF this d] c
  have pos: "\<forall>tok n. fmlookup (validTokens c) tok = Some n \<longrightarrow> 0 <s n" by simp
  then have "\<forall>tok. isValid c tok \<longleftrightarrow> tok |\<in>| fmdom (validTokens c)"
    by (auto simp: isValid_def fmlookup_dom_iff split: option.splits)
  moreover have "\<forall>s t. fmlookup (validTokens (s :: 'a SideInputCache)) t = Some 1 \<longrightarrow>
                 fmlookup (validTokens (decrementTokenCount s t)) t = None"
    by (simp add: decrementTokenCount_def)
  ultimately show ?thesis using pos by blast
qed

theorem registry_counts_positive_witness:
  "(1::int) \<le> 2 \<and> disciplined (snd (Init zeroValue 2)) overlappingBundles \<and>
   fmlookup (validTokens (run (snd (Init zeroValue 2)) overlappingBundles)) ''A'' = Some 1 \<and>
   0 <s (1 :: 8 word) \<and>
   isValid (run (snd (Init zeroValue 2)) overlappingBundles) ''A''"
proof -
  have a: "(1::int) \<le> 2" by simp
  have b: "disciplined (snd (Init (zeroValue :: nat SideInputCache) 2)) overlappingBundles" by code_simp
  have l: "fmlookup (validTokens (run (snd (Init (zeroValue :: nat SideInputCache) 2)) overlappingBundles)) ''A'' = Some 1"
    by code_simp
  then have m: "''A'' |\<in>| fmdom (validTokens (run (snd (Init (zeroValue :: nat SideInputCache) 2)) overlappingBundles))"
    by (simp add: fmlookup_dom_iff)
  from registry_counts_positive [OF a b refl] a b l m show ?thesis by blast
qed

text \<open>
  Without the discipline the claim fails: releasing a token that is not in the registry
  stores the count -1 for it.
\<close>

theorem release_of_absent_token_counterexample:
  "fmlookup (validTokens (CompleteBundle (snd (Init (zeroValue :: nat SideInputCache) 1))
       [SideInputToken ''stepX'' ''in1'' ''A''])) ''A'' = Some (- 1) \<and>
   \<not> 0 <s (- 1 :: 8 word)"
  by code_simp

subsection \<open>Hits and misses\<close>

lemma QueryCache_counts:
  "Hits (metrics (snd (QueryCache c tid sid))) + Misses (metrics (snd (QueryCache c tid sid))) =
     Hits (metrics c) + Misses (metrics c) +
     of_nat (if snd (makeAndValidateToken c tid sid) then 1 else 0)"
  by (cases "makeAndValidateToken c tid sid")
     (simp add: QueryCache_def split: option.splits)

lemma QueryCache_one_counter:
  "snd (makeAndValidateToken c tid sid) \<Longrightarrow>
   (Hits (metrics (snd (QueryCache c tid sid))) = Hits (metrics c) + 1 \<and>
    Misses (metrics (snd (QueryCache c tid sid))) = Misses (metrics c) \<and>
    fst (makeAndValidateToken c tid sid) |\<in>| fmdom (cache c)) \<or>
   (Hits (metrics (snd (QueryCache c tid sid))) = Hits (metrics c) \<and>
    Misses (metrics (snd (QueryCache c tid sid))) = Misses (metrics c) + 1 \<and>
    fst (QueryCache c tid sid) = None \<and>
    fst (makeAndValidateToken c tid sid) |\<notin>| fmdom (cache c))"
  by (cases "makeAndValidateToken c tid sid")
     (auto simp: QueryCache_def fmlookup_dom_iff split: option.splits)

lemma exec_counts:
  "Hits (metrics (exec c x)) + Misses (metrics (exec c x)) =
     Hits (metrics c) + Misses (metrics c) + of_nat (resolvedQueries c [x])"
proof (cases x)
  case (OpInit n)
  then show ?thesis by (simp add: Init_def)
next
  case (OpSetValidTokens ts)
  then show ?thesis by (simp add: SetValidTokens_frame)
next
  case (OpCompleteBundle ts)
  then show ?thesis by (simp add: CompleteBundle_frame)
next
  case (OpQueryCache tid sid)
  then show ?thesis using QueryCache_counts [of c tid sid] by simp
next
  case (OpSetCache tid sid input ks1 ks2)
  then show ?thesis by (simp add: SetCache_registry)
qed

lemma resolvedQueries_Cons:
  "resolvedQueries c (x # xs) = resolvedQueries c [x] + resolvedQueries (exec c x) xs"
  by (cases x) simp_all

lemma run_counts:
  "Hits (metrics (run c xs)) + Misses (metrics (run c xs)) =
     Hits (metrics c) + Misses (metrics c) + of_nat (resolvedQueries c xs)"
proof (induction xs arbitrary: c)
  case Nil
  show ?case by simp
next
  case (Cons x xs)
  have "Hits (metrics (run c (x # xs))) + Misses (metrics (run c (x # xs))) =
          Hits (metrics (exec c x)) + Misses (metrics (exec c x)) +
          of_nat (resolvedQueries (exec c x) xs)"
    using Cons.IH [of "exec c x"] by simp
  also have "\<dots> = Hits (metrics c) + Misses (metrics c) + of_nat (resolvedQueries c [x]) +
          of_nat (resolvedQueries (exec c x) xs)"
    by (simp only: exec_counts)
  also have "\<dots> = Hits (metrics c) + Misses (metrics c) + of_nat (resolvedQueries c (x # xs))"
    by (simp only: resolvedQueries_Cons [of c x xs] of_nat_add add.assoc)
  finally show ?case .
qed

text \<open>
  C4, as the code has it. \<^verbatim>\<open>QueryCache\<close> returns before it touches a counter when the
  identity key has no token or the token is not valid. A query whose key resolves to a
  valid token adds 1 to exactly one of \<^verbatim>\<open>Hits\<close> (the token is in the store) and
  \<^verbatim>\<open>Misses\<close> (it is not, and no value is returned); any other query returns no value
  and leaves the whole state, counters included, unchanged. Over a sequence of calls,
  \<^verbatim>\<open>Hits\<close> plus \<^verbatim>\<open>Misses\<close> grows by the number of queries that resolved to a valid
  token (in the 64-bit arithmetic of the counters).
\<close>

theorem hits_plus_misses_count_resolved_queries:
  "(snd (makeAndValidateToken c tid sid) \<longrightarrow>
      (Hits (metrics (snd (QueryCache c tid sid))) = Hits (metrics c) + 1 \<and>
       Misses (metrics (snd (QueryCache c tid sid))) = Misses (metrics c) \<and>
       fst (makeAndValidateToken c tid sid) |\<in>| fmdom (cache c)) \<or>
      (Hits (metrics (snd (QueryCache c tid sid))) = Hits (metrics c) \<and>
       Misses (metrics (snd (QueryCache c tid sid))) = Misses (metrics c) + 1 \<and>
       fst (QueryCache c tid sid) = None \<and>
       fst (makeAndValidateToken c tid sid) |\<notin>| fmdom (cache c))) \<and>
   (\<not> snd (makeAndValidateToken c tid sid) \<longrightarrow> QueryCache c tid sid = (None, c)) \<and>
   Hits (metrics (run c ops)) + Misses (metrics (run c ops)) =
     Hits (metrics c) + Misses (metrics c) + of_nat (resolvedQueries c ops)"
  using QueryCache_one_counter [of c tid sid] QueryCache_not_ok [of c tid sid] run_counts [of c ops]
  by blast

theorem hits_plus_misses_count_resolved_queries_witness:
  "snd (makeAndValidateToken afterRelease ''stepX'' ''in2'') \<and>
   \<not> snd (makeAndValidateToken afterRelease ''stepX'' ''in1'') \<and>
   QueryCache afterRelease ''stepX'' ''in1'' = (None, afterRelease) \<and>
   resolvedQueries afterRelease threeQueries = 1 \<and>
   Hits (metrics (run afterRelease threeQueries)) + Misses (metrics (run afterRelease threeQueries)) =
     Hits (metrics afterRelease) + Misses (metrics afterRelease) + of_nat 1"
proof -
  have a: "snd (makeAndValidateToken afterRelease ''stepX'' ''in2'')" by code_simp
  have b: "\<not> snd (makeAndValidateToken afterRelease ''stepX'' ''in1'')" by code_simp
  have n: "resolvedQueries afterRelease threeQueries = 1" by code_simp
  from hits_plus_misses_count_resolved_queries [of afterRelease "''stepX''" "''in1''" threeQueries] b
  have "QueryCache afterRelease ''stepX'' ''in1'' = (None, afterRelease)" and
    "Hits (metrics (run afterRelease threeQueries)) + Misses (metrics (run afterRelease threeQueries)) =
     Hits (metrics afterRelease) + Misses (metrics afterRelease) + of_nat (resolvedQueries afterRelease threeQueries)"
    by blast+
  with a b n show ?thesis by simp
qed

text \<open>
  A query for a key that was never registered changes neither counter, so the sum of
  the two does not count it.
\<close>

theorem unresolved_query_counts_nothing_counterexample:
  "Hits (metrics (snd (QueryCache (fresh :: nat SideInputCache) ''stepX'' ''in1''))) +
   Misses (metrics (snd (QueryCache fresh ''stepX'' ''in1''))) \<noteq>
   Hits (metrics fresh) + Misses (metrics fresh) + 1 \<and>
   Misses (metrics (snd (QueryCache fresh ''stepX'' ''in1''))) = Misses (metrics fresh) \<and>
   Hits (metrics (snd (QueryCache fresh ''stepX'' ''in1''))) = Hits (metrics fresh)"
  by code_simp

subsection \<open>A cached value is served while its token is left alone\<close>

lemma setValidToken_ids:
  "fmlookup (idsToTokens (setValidToken c tid sid t)) k =
     (if k = tid @ sid then Some t else fmlookup (idsToTokens c) k)"
  by (auto simp: setValidToken_def Let_def split: option.splits)

lemma setValidToken_isValid:
  assumes v: "isValid c tok"
    and ok: "t = tok \<Longrightarrow> fmlookup (validTokens c) tok \<noteq> Some 127"
  shows "isValid (setValidToken c tid sid t) tok"
proof -
  from v obtain m where m: "fmlookup (validTokens c) tok = Some m" and pos: "0 <s m"
    by (auto simp: isValid_def split: option.splits)
  show ?thesis
  proof (cases "t = tok")
    case True
    with ok m have "m \<noteq> 127" by simp
    with pos have "0 <s m + 1" by (rule count_up)
    with True m show ?thesis by (simp add: isValid_def setValidToken_count)
  next
    case False
    with m pos show ?thesis by (simp add: isValid_def setValidToken_count)
  qed
qed

lemma registersKeep_resolves:
  "fmlookup (idsToTokens c) key = Some tok \<Longrightarrow> isValid c tok \<Longrightarrow> registersKeep tok key c es \<Longrightarrow>
   fmlookup (idsToTokens (SetValidTokens c es)) key = Some tok \<and> isValid (SetValidTokens c es) tok"
proof (induction c es rule: SetValidTokens.induct)
  case (1 c)
  then show ?case by simp
next
  case (2 c t cacheTokens)
  then show ?case by simp
next
  case (3 c transformID sideInputID t cacheTokens)
  let ?c = "setValidToken c transformID sideInputID t"
  from "3.prems"(3) have k: "transformID @ sideInputID = key \<Longrightarrow> t = tok"
    and n: "t = tok \<Longrightarrow> fmlookup (validTokens c) tok \<noteq> Some 127"
    and rest: "registersKeep tok key ?c cacheTokens"
    by (simp_all split: if_splits)
  from "3.prems"(1) k have a: "fmlookup (idsToTokens ?c) key = Some tok"
    by (auto simp: setValidToken_ids)
  from "3.prems"(2) n have b: "isValid ?c tok" by (rule setValidToken_isValid)
  from "3.IH" [OF a b rest] show ?case by simp
qed

lemma decrementTokenCount_other:
  "t \<noteq> tok \<Longrightarrow> fmlookup (validTokens (decrementTokenCount c t)) tok = fmlookup (validTokens c) tok"
  by (simp add: decrementTokenCount_def Let_def)

lemma releasesKeep_count:
  "releasesKeep tok es \<Longrightarrow>
   fmlookup (validTokens (CompleteBundle c es)) tok = fmlookup (validTokens c) tok"
proof (induction c es rule: CompleteBundle.induct)
  case (1 c)
  then show ?case by simp
next
  case (2 c t cacheTokens)
  then show ?case by simp
next
  case (3 c transformID sideInputID t cacheTokens)
  then show ?case by (simp add: decrementTokenCount_other)
qed

lemma isValid_cong: "fmlookup (validTokens c') tok = fmlookup (validTokens c) tok \<Longrightarrow> isValid c' tok = isValid c tok"
  by (simp add: isValid_def)

lemma undisturbed_keeps:
  "fmlookup (idsToTokens c) key = Some tok \<Longrightarrow> isValid c tok \<Longrightarrow> undisturbed tok key c xs \<Longrightarrow>
   fmlookup (idsToTokens (run c xs)) key = Some tok \<and> isValid (run c xs) tok \<and>
   fmlookup (cache (run c xs)) tok = fmlookup (cache c) tok"
proof (induction tok key c xs rule: undisturbed.induct)
  case (1 tok key c)
  then show ?case by simp
next
  case (2 tok key c cap xs)
  from "2.prems"(3) have n: "cap \<le> 0" and u: "undisturbed tok key (exec c (OpInit cap)) xs"
    by simp_all
  from n have e: "exec c (OpInit cap) = c" by (simp add: Init_def)
  from "2.prems"(1,2) e have a: "fmlookup (idsToTokens (exec c (OpInit cap))) key = Some tok"
    and b: "isValid (exec c (OpInit cap)) tok" by simp_all
  from "2.IH" [OF a b u] e show ?case by simp
next
  case (3 tok key c cacheTokens xs)
  let ?c = "exec c (OpSetValidTokens cacheTokens)"
  from "3.prems"(3) have r: "registersKeep tok key c cacheTokens" and u: "undisturbed tok key ?c xs"
    by simp_all
  from registersKeep_resolves [OF "3.prems"(1,2) r]
  have a: "fmlookup (idsToTokens ?c) key = Some tok" and b: "isValid ?c tok" by simp_all
  from "3.IH" [OF a b u] show ?case by (simp add: SetValidTokens_frame)
next
  case (4 tok key c cacheTokens xs)
  let ?c = "exec c (OpCompleteBundle cacheTokens)"
  from "4.prems"(3) have r: "releasesKeep tok cacheTokens" and u: "undisturbed tok key ?c xs"
    by simp_all
  from "4.prems"(1) have a: "fmlookup (idsToTokens ?c) key = Some tok"
    by (simp add: CompleteBundle_frame)
  from "4.prems"(2) isValid_cong [OF releasesKeep_count [OF r, of c]] have b: "isValid ?c tok" by simp
  from "4.IH" [OF a b u] show ?case by (simp add: CompleteBundle_frame)
next
  case (5 tok key c transformID sideInputID xs)
  let ?c = "exec c (OpQueryCache transformID sideInputID)"
  from "5.prems"(3) have u: "undisturbed tok key ?c xs" by simp
  from "5.prems"(1) have a: "fmlookup (idsToTokens ?c) key = Some tok"
    by (simp add: QueryCache_frame)
  from "5.prems"(2) isValid_cong [of ?c tok c] have b: "isValid ?c tok" by (simp add: QueryCache_frame)
  from "5.IH" [OF a b u] show ?case by (simp add: QueryCache_frame)
next
  case (6 tok key c transformID sideInputID input ks1 ks2 xs)
  let ?c = "exec c (OpSetCache transformID sideInputID input ks1 ks2)"
  from "6.prems"(3) have k: "fmlookup (cache ?c) tok = fmlookup (cache c) tok"
    and u: "undisturbed tok key ?c xs" by simp_all
  from "6.prems"(1) have a: "fmlookup (idsToTokens ?c) key = Some tok"
    by (simp add: SetCache_registry)
  from "6.prems"(2) isValid_cong [of ?c tok c] have b: "isValid ?c tok" by (simp add: SetCache_registry)
  from "6.IH" [OF a b u] k show ?case by simp
qed

text \<open>
  C5, as the code has it. When the identity key resolves to a valid token, \<^verbatim>\<open>SetCache\<close>
  with value \<open>v\<close> stores \<open>v\<close> under that token, and after any calls that leave the token
  alone (\<open>undisturbed\<close>: the token is not released, no \<^verbatim>\<open>SetCache\<close> or eviction changes
  its entry, the key is not given another token, the token is not registered at count
  127, \<^verbatim>\<open>Init\<close> does not succeed again) a \<^verbatim>\<open>QueryCache\<close> for the key returns \<open>v\<close> itself,
  adds 1 to \<^verbatim>\<open>Hits\<close> and changes nothing else, neither the store nor the registry; \<open>n\<close>
  such queries in a row advance \<^verbatim>\<open>Hits\<close> by \<open>n\<close>.
\<close>

theorem QueryCache_hits_while_undisturbed:
  assumes ok: "makeAndValidateToken c tid sid = (tok, True)"
    and c1: "c1 = SetCache c tid sid v ks1 ks2"
    and u: "undisturbed tok (tid @ sid) c1 ops"
    and cn: "cn = run c1 ops"
  shows "fst (QueryCache cn tid sid) = v \<and>
         snd (QueryCache cn tid sid) =
           cn\<lparr>metrics := (metrics cn)\<lparr>Hits := Hits (metrics cn) + 1\<rparr>\<rparr> \<and>
         cache (snd (QueryCache cn tid sid)) = cache cn \<and>
         idsToTokens (snd (QueryCache cn tid sid)) = idsToTokens cn \<and>
         validTokens (snd (QueryCache cn tid sid)) = validTokens cn \<and>
         ((\<lambda>s. snd (QueryCache s tid sid)) ^^ n) cn =
           cn\<lparr>metrics := (metrics cn)\<lparr>Hits := Hits (metrics cn) + of_nat n\<rparr>\<rparr>"
proof -
  from ok have id: "fmlookup (idsToTokens c) (tid @ sid) = Some tok" and val: "isValid c tok"
    by (auto simp: makeAndValidateToken_def split: option.splits)
  have id1: "fmlookup (idsToTokens c1) (tid @ sid) = Some tok" and val1: "isValid c1 tok"
    using id val c1 isValid_cong [of c1 tok c] by (simp_all add: SetCache_registry)
  have st1: "fmlookup (cache c1) tok = Some v"
    using SetCache_stores [OF ok] c1 by simp
  from undisturbed_keeps [OF id1 val1 u] cn st1
  have idn: "fmlookup (idsToTokens cn) (tid @ sid) = Some tok" and valn: "isValid cn tok"
    and stn: "fmlookup (cache cn) tok = Some v" by simp_all
  from idn valn have okn: "makeAndValidateToken cn tid sid = (tok, True)"
    by (simp add: makeAndValidateToken_def)
  from QueryCache_hit [OF okn stn] QueryCache_hits_repeat [OF okn stn, of n] show ?thesis by simp
qed

theorem QueryCache_hits_while_undisturbed_witness:
  "makeAndValidateToken registered ''stepX'' ''in1'' = (''A'', True) \<and>
   cachedA = SetCache registered ''stepX'' ''in1'' (Some 1) [] [] \<and>
   undisturbed ''A'' (''stepX'' @ ''in1'') cachedA quietCalls \<and>
   fst (QueryCache (run cachedA quietCalls) ''stepX'' ''in1'') = Some 1 \<and>
   snd (QueryCache (run cachedA quietCalls) ''stepX'' ''in1'') =
     (run cachedA quietCalls)
       \<lparr>metrics := (metrics (run cachedA quietCalls))
          \<lparr>Hits := Hits (metrics (run cachedA quietCalls)) + 1\<rparr>\<rparr>"
proof -
  have ok: "makeAndValidateToken registered ''stepX'' ''in1'' = (''A'', True)" by code_simp
  have c1: "cachedA = SetCache registered ''stepX'' ''in1'' (Some 1) [] []" by (rule cachedA_def)
  have u: "undisturbed ''A'' (''stepX'' @ ''in1'') cachedA quietCalls" by code_simp
  from QueryCache_hits_while_undisturbed [OF ok c1 u refl] ok c1 u show ?thesis by blast
qed

text \<open>
  Without those conditions the claim fails. Token \<open>A\<close> is registered for (stepX, in1) and
  a value is cached; then the same key is registered with token \<open>B\<close>. Token \<open>A\<close> has not
  been released, its count and its entry are what they were, and yet the query for the
  key resolves to \<open>B\<close>, finds nothing, returns no value and counts a miss.
\<close>

theorem superseded_key_misses_counterexample:
  "makeAndValidateToken registered ''stepX'' ''in1'' = (''A'', True) \<and>
   cachedA = SetCache registered ''stepX'' ''in1'' (Some 1) [] [] \<and>
   superseded = SetValidTokens cachedA [SideInputToken ''stepX'' ''in1'' ''B''] \<and>
   isValid superseded ''A'' \<and>
   fmlookup (validTokens superseded) ''A'' = fmlookup (validTokens cachedA) ''A'' \<and>
   fmlookup (cache superseded) ''A'' = Some (Some 1) \<and>
   fst (QueryCache superseded ''stepX'' ''in1'') = None \<and>
   fst (QueryCache superseded ''stepX'' ''in1'') \<noteq> Some 1 \<and>
   Hits (metrics (snd (QueryCache superseded ''stepX'' ''in1''))) = Hits (metrics superseded) \<and>
   Misses (metrics (snd (QueryCache superseded ''stepX'' ''in1''))) = Misses (metrics superseded) + 1"
  by code_simp

end
